theory Spec2Isabelle
  imports Complex_Main "HOL-Library.Sublist" "HOL-Library.Multiset"
begin

section \<open>Numbers and strings of the source language\<close>

text \<open>
  The pipeline of \<^verbatim>\<open>src/index.ts\<close> computes with JavaScript numbers. Finite numbers
  are modelled as exact rationals (the rounding of IEEE doubles is not modelled); the
  three non-finite results a division can produce are kept as values of their own, so
  that a division by zero is visible in the model.
\<close>

datatype number = Num rat | PosInfinity | NegInfinity | NaN

definition js_div :: "rat \<Rightarrow> rat \<Rightarrow> number" where
  "js_div a b =
     (if b \<noteq> 0 then Num (a / b)
      else if a = 0 then NaN
      else if 0 < a then PosInfinity else NegInfinity)"

text \<open>\<^verbatim>\<open>Math.round\<close>: the nearest integer, a tie going to the larger one.\<close>

definition js_round :: "rat \<Rightarrow> int" where
  "js_round x = \<lfloor>x + 1 / 2\<rfloor>"

text \<open>
  \<^verbatim>\<open>+x.toFixed(d)\<close>: the multiple of \<open>10\<^sup>-\<^sup>d\<close> nearest to \<open>x\<close>; the sign is
  split off first and a tie of the magnitude goes to the larger multiple.
\<close>

definition toFixed_mag :: "nat \<Rightarrow> rat \<Rightarrow> rat" where
  "toFixed_mag d x = of_int \<lfloor>x * 10 ^ d + 1 / 2\<rfloor> / 10 ^ d"

definition toFixed :: "nat \<Rightarrow> rat \<Rightarrow> rat" where
  "toFixed d x = (if x < 0 then - toFixed_mag d (- x) else toFixed_mag d x)"

fun toFixed_number :: "nat \<Rightarrow> number \<Rightarrow> number" where
  "toFixed_number d (Num x) = Num (toFixed d x)"
| "toFixed_number d n = n"

text \<open>\<^verbatim>\<open>n > c\<close> for a constant \<open>c\<close>: false for \<^verbatim>\<open>NaN\<close>.\<close>

fun number_gt :: "number \<Rightarrow> rat \<Rightarrow> bool" where
  "number_gt (Num x) c = (c < x)"
| "number_gt PosInfinity c = True"
| "number_gt NegInfinity c = False"
| "number_gt NaN c = False"

text \<open>
  \<^verbatim>\<open>toLowerCase\<close> on the ASCII letters (a \<open>char\<close> is a byte; other bytes are left
  as they are), and \<^verbatim>\<open>s.includes(kw)\<close>, the test for a contiguous substring.
\<close>

definition lower_char :: "char \<Rightarrow> char" where
  "lower_char c =
     (let n = (of_char c :: nat)
      in if 65 \<le> n \<and> n \<le> 90 then char_of (n + 32) else c)"

definition toLowerCase :: "string \<Rightarrow> string" where
  "toLowerCase s = map lower_char s"

fun includes_str :: "string \<Rightarrow> string \<Rightarrow> bool" where
  "includes_str [] kw = (kw = [])"
| "includes_str (c # s) kw = (prefix kw (c # s) \<or> includes_str s kw)"


section \<open>Classification: \<^verbatim>\<open>classifyDamage\<close>\<close>

text \<open>
  A label of the detection service; both fields are optional in the service's type, and
  the source reads them as \<^verbatim>\<open>L.Name || ''\<close> and \<^verbatim>\<open>L.Confidence || 0\<close>.
\<close>

record Label =
  Name :: "string option"
  Confidence :: "rat option"

definition label_name :: "Label \<Rightarrow> string" where
  "label_name L = toLowerCase (case Name L of None \<Rightarrow> [] | Some n \<Rightarrow> n)"

definition label_confidence :: "Label \<Rightarrow> rat" where
  "label_confidence L = (case Confidence L of None \<Rightarrow> 0 | Some c \<Rightarrow> c)"

definition damageKeywords :: "string list" where
  "damageKeywords =
     [''damage'', ''shingle uplift'', ''material detachment'',
      ''wind damage'', ''hail damage'', ''roof damage'']"

text \<open>The local variables of \<^verbatim>\<open>classifyDamage\<close> that its loop updates.\<close>

record scan =
  blurry :: bool
  dark :: bool
  area_var :: "string option"
  damageLabels :: "Label list"

definition scan_init :: scan where
  "scan_init = \<lparr>blurry = False, dark = False, area_var = None, damageLabels = []\<rparr>"

text \<open>One iteration of the loop over the labels (lines 61 to 75).\<close>

definition classify_step :: "scan \<Rightarrow> Label \<Rightarrow> scan" where
  "classify_step s L =
     (let name = label_name L;
          confidence = label_confidence L
      in if confidence < 50 then s
         else
           (let s1 = (if name \<in> set [''blur'', ''blurry''] then s\<lparr>blurry := True\<rparr> else s);
                s2 = (if name \<in> set [''dark'', ''shadow''] then s1\<lparr>dark := True\<rparr> else s1);
                s3 = (if name \<in> set [''roof'', ''shingle'']
                      then s2\<lparr>area_var := Some ''roof''\<rparr> else s2);
                s4 = (if name \<in> set [''garage'', ''door'']
                      then s3\<lparr>area_var := Some ''garage''\<rparr> else s3);
                s5 = (if name \<in> set [''wall'', ''siding'', ''panel'']
                      then s4\<lparr>area_var := Some ''siding''\<rparr> else s4)
            in if list_ex (\<lambda>kw. includes_str name kw) damageKeywords
               then s5\<lparr>damageLabels := damageLabels s5 @ [L]\<rparr>
               else s5))"

datatype classification =
  Discard
  | Keep (cls_area: string) (cls_severity: int) (qualityScore: rat)

definition avgConfidence :: "Label list \<Rightarrow> rat" where
  "avgConfidence dl =
     foldl (\<lambda>sum l. sum + label_confidence l) 0 dl /
     (if length dl = 0 then 1 else of_nat (length dl))"

definition classifyDamage :: "Label list \<Rightarrow> classification" where
  "classifyDamage labels =
     (let s = foldl classify_step scan_init labels
      in if area_var s = None \<and> damageLabels s = [] then Discard
         else
           Keep (case area_var s of None \<Rightarrow> ''unknown'' | Some a \<Rightarrow> a)
                (min 4 (js_round (avgConfidence (damageLabels s) / 25)))
                (if blurry s \<or> dark s then 6 / 10 else 1))"


section \<open>Fetching: \<^verbatim>\<open>fetchWithRetry\<close>\<close>

type_synonym buffer = "nat list"

datatype error = FetchFailed | Unreachable | ServiceError | TaskError | TypeError

text \<open>
  What the handler cannot compute itself is read from an environment: the outcome of
  the \<open>i\<close>-th attempt to fetch a URL (\<open>None\<close> for a transport error or a response that
  is not ok), the label-detection call (an error, or a response whose \<^verbatim>\<open>Labels\<close> field
  may be missing), the worker's \<^verbatim>\<open>hash\<close> task (rejected, or the fingerprint), the
  value of \<^verbatim>\<open>Math.random()\<close> and the clock.
\<close>

record env =
  fetch :: "string \<Rightarrow> nat \<Rightarrow> buffer option"
  detectLabels :: "buffer \<Rightarrow> error + Label list option"
  runTask_hash :: "buffer \<Rightarrow> error + string"
  random_value :: rat
  now_iso :: string

text \<open>The retry loop (lines 97 to 107); the delay between attempts has no counterpart here.\<close>

function fetchWithRetry_loop :: "env \<Rightarrow> string \<Rightarrow> nat \<Rightarrow> nat \<Rightarrow> error + buffer" where
  "fetchWithRetry_loop e u retries i =
     (if i < retries then
        (case fetch e u i of
           Some b \<Rightarrow> Inr b
         | None \<Rightarrow>
             if i = retries - 1 then Inl FetchFailed
             else fetchWithRetry_loop e u retries (Suc i))
      else Inl Unreachable)"
  by pat_completeness auto
termination
  by (relation "measure (\<lambda>(e, u, retries, i). retries - i)") auto

declare fetchWithRetry_loop.simps [simp del]

definition fetchWithRetry :: "env \<Rightarrow> string \<Rightarrow> error + buffer" where
  "fetchWithRetry e u = fetchWithRetry_loop e u 3 0"


section \<open>Clustering: \<^verbatim>\<open>groupByHash\<close>\<close>

record ImageAnalysisResult =
  url :: string
  area :: string
  severity :: int
  quality :: rat
  hash :: string

text \<open>
  \<^verbatim>\<open>hammingDistance(a, b)\<close> walks the positions of \<open>a\<close>; a position beyond the end of
  \<open>b\<close> reads \<^verbatim>\<open>undefined\<close> there, which differs from every character.
\<close>

fun hammingDistance :: "string \<Rightarrow> string \<Rightarrow> nat" where
  "hammingDistance [] b = 0"
| "hammingDistance (x # a) [] = Suc (hammingDistance a [])"
| "hammingDistance (x # a) (y # b) = (if x \<noteq> y then 1 else 0) + hammingDistance a b"

text \<open>The inner loop over \<open>j\<close> (lines 125 to 130) for the seed at index \<open>i\<close>.\<close>

function group_scan ::
  "ImageAnalysisResult list \<Rightarrow> nat \<Rightarrow> nat \<Rightarrow> ImageAnalysisResult list \<Rightarrow> bool list
    \<Rightarrow> ImageAnalysisResult list \<times> bool list" where
  "group_scan images i j grp visited =
     (if j < length images then
        (if \<not> visited ! j \<and> hammingDistance (hash (images ! i)) (hash (images ! j)) \<le> 3
         then group_scan images i (Suc j) (grp @ [images ! j]) (visited[j := True])
         else group_scan images i (Suc j) grp visited)
      else (grp, visited))"
  by pat_completeness auto
termination
  by (relation "measure (\<lambda>(images, i, j, grp, visited). length images - j)") auto

declare group_scan.simps [simp del]

text \<open>The outer loop over \<open>i\<close> (lines 121 to 132).\<close>

function group_loop ::
  "ImageAnalysisResult list \<Rightarrow> nat \<Rightarrow> ImageAnalysisResult list list \<Rightarrow> bool list
    \<Rightarrow> ImageAnalysisResult list list" where
  "group_loop images i groups visited =
     (if i < length images then
        (if visited ! i then group_loop images (Suc i) groups visited
         else
           (case group_scan images i (Suc i) [images ! i] (visited[i := True]) of
              (grp, visited') \<Rightarrow> group_loop images (Suc i) (groups @ [grp]) visited'))
      else groups)"
  by pat_completeness auto
termination
  by (relation "measure (\<lambda>(images, i, groups, visited). length images - i)") auto

declare group_loop.simps [simp del]

definition groupByHash :: "ImageAnalysisResult list \<Rightarrow> ImageAnalysisResult list list" where
  "groupByHash images = group_loop images 0 [] (replicate (length images) False)"


section \<open>The handler\<close>

text \<open>
  The request body, the response and its parts. A field whose name is already taken by
  another record or by a keyword carries a prefix or a suffix: \<open>area_res\<close> and
  \<open>notes_text\<close> are the fields \<^verbatim>\<open>area\<close> and \<^verbatim>\<open>notes\<close> of an area result,
  \<open>report_claim_id\<close> and \<open>report_source_images\<close> the fields \<^verbatim>\<open>claim_id\<close> and
  \<^verbatim>\<open>source_images\<close> of the response body. The \<^verbatim>\<open>images\<close> of a body that has no such
  array are \<open>None\<close>.
\<close>

record event =
  claim_id :: string
  images :: "string list option"
  loss_type :: string

record AreaResult =
  area_res :: string
  damage_confirmed :: bool
  avg_severity :: number
  primary_peril :: string
  representative_images :: "string list"
  notes_text :: string

record source_images =
  total :: nat
  analyzed :: nat
  discarded :: nat
  clusters :: nat

record report =
  report_claim_id :: string
  report_source_images :: source_images
  overall_damage_severity :: number
  areas :: "AreaResult list"
  data_gaps :: "string list"
  confidence :: rat
  generated_at :: string

record response =
  statusCode :: nat
  body :: report

text \<open>The accumulators that the completion callbacks of the image tasks update.\<close>

record progress =
  photoData :: "ImageAnalysisResult list"
  analyzed_var :: nat
  discarded_var :: nat

definition discard_one :: "progress \<Rightarrow> progress" where
  "discard_one st = st\<lparr>discarded_var := discarded_var st + 1\<rparr>"

text \<open>
  Step 1 (lines 148 to 161). \<^verbatim>\<open>Promise.all\<close> returns the results in the order of the
  URLs whatever the order of completion, and the only shared effect of a task is the
  increment of \<^verbatim>\<open>discarded\<close>.
\<close>

definition fetch_task ::
  "env \<Rightarrow> (string \<times> buffer) option list \<times> progress \<Rightarrow> string
    \<Rightarrow> (string \<times> buffer) option list \<times> progress" where
  "fetch_task e acc u =
     (case acc of (results, st) \<Rightarrow>
        (case fetchWithRetry e u of
           Inr buffer \<Rightarrow> (results @ [Some (u, buffer)], st)
         | Inl err \<Rightarrow> (results @ [None], discard_one st)))"

definition validImages_of :: "(string \<times> buffer) option list \<Rightarrow> (string \<times> buffer) list" where
  "validImages_of qualityResults = map the (filter (\<lambda>r. r \<noteq> None) qualityResults)"

text \<open>
  Step 2 (lines 164 to 188), one image task. Its effects on the accumulators happen
  after its last \<^verbatim>\<open>await\<close>, so a task is one step on the state, taken when it completes.
\<close>

definition classify_task :: "env \<Rightarrow> progress \<Rightarrow> string \<times> buffer \<Rightarrow> progress" where
  "classify_task e st img =
     (case img of (u, buffer) \<Rightarrow>
        (case detectLabels e buffer of
           Inl err \<Rightarrow> discard_one st
         | Inr Labels \<Rightarrow>
             (case classifyDamage (case Labels of None \<Rightarrow> [] | Some ls \<Rightarrow> ls) of
                Discard \<Rightarrow> discard_one st
              | Keep a sev q \<Rightarrow>
                  (case runTask_hash e buffer of
                     Inl err \<Rightarrow> discard_one st
                   | Inr h \<Rightarrow>
                       st\<lparr>photoData := photoData st @
                             [\<lparr>url = u, area = a, severity = sev, quality = q, hash = h\<rparr>],
                          analyzed_var := analyzed_var st + 1\<rparr>))))"

text \<open>
  Steps 1 and 2 together. The tasks of step 2 run concurrently and complete in an order
  the handler does not control: \<open>sched\<close> is that order, a rearrangement of the valid
  images.
\<close>

definition collect ::
  "env \<Rightarrow> ((string \<times> buffer) list \<Rightarrow> (string \<times> buffer) list) \<Rightarrow> string list \<Rightarrow> progress" where
  "collect e sched urls =
     (case foldl (fetch_task e) ([], \<lparr>photoData = [], analyzed_var = 0, discarded_var = 0\<rparr>) urls of
        (qualityResults, st) \<Rightarrow>
          foldl (classify_task e) st (sched (validImages_of qualityResults)))"

text \<open>
  Step 3 (line 192): \<^verbatim>\<open>g.sort((a, b) => b.quality - a.quality)[0]\<close>. The sort is stable
  and descending in the quality, which is the stable ascending sort on the negated
  quality; the first element of an empty array would be \<^verbatim>\<open>undefined\<close>.
\<close>

definition sort_by_quality :: "ImageAnalysisResult list \<Rightarrow> ImageAnalysisResult list" where
  "sort_by_quality g = sort_key (\<lambda>i. - quality i) g"

definition best_of :: "ImageAnalysisResult list \<Rightarrow> ImageAnalysisResult option" where
  "best_of g = (case sort_by_quality g of [] \<Rightarrow> None | b # rest \<Rightarrow> Some b)"

text \<open>
  Step 4 (lines 195 to 214). \<^verbatim>\<open>areaMap\<close> is an object used as a dictionary; for the
  keys that occur, the four area names of \<^verbatim>\<open>classifyDamage\<close>, its entries are read back
  in the order of insertion: an association list. (A key that names a property of the
  object's prototype, or that is an integer index, would behave otherwise.)
\<close>

fun areaMap_push ::
  "(string \<times> ImageAnalysisResult list) list \<Rightarrow> ImageAnalysisResult
    \<Rightarrow> (string \<times> ImageAnalysisResult list) list" where
  "areaMap_push [] img = [(area img, [img])]"
| "areaMap_push ((k, imgs) # m) img =
     (if k = area img then (k, imgs @ [img]) # m else (k, imgs) # areaMap_push m img)"

definition weighted_mean :: "ImageAnalysisResult list \<Rightarrow> number" where
  "weighted_mean imgs =
     js_div (foldl (\<lambda>sum i. sum + of_int (severity i) * quality i) 0 imgs)
            (foldl (\<lambda>sum i. sum + quality i) 0 imgs)"

definition area_entry :: "string \<Rightarrow> string \<times> ImageAnalysisResult list \<Rightarrow> AreaResult" where
  "area_entry loss entry =
     (case entry of (a, imgs) \<Rightarrow>
        (let avgSeverity = weighted_mean imgs;
             confirmed = (2 \<le> length (filter (\<lambda>i. 2 \<le> severity i) imgs))
         in \<lparr>area_res = a,
             damage_confirmed = confirmed,
             avg_severity = toFixed_number 1 avgSeverity,
             primary_peril = loss,
             representative_images = take 3 (map url imgs),
             notes_text = (if number_gt avgSeverity (5 / 2)
                      then ''Shingle uplift or material detachment''
                      else ''Minor cosmetic or no visible damage'')\<rparr>))"

definition finalAreas :: "string \<Rightarrow> ImageAnalysisResult list \<Rightarrow> AreaResult list" where
  "finalAreas loss bestImages = map (area_entry loss) (foldl areaMap_push [] bestImages)"

text \<open>Step 5 (lines 217 to 222).\<close>

definition overallSeverity :: "ImageAnalysisResult list \<Rightarrow> number" where
  "overallSeverity bestImages =
     (if length bestImages \<noteq> 0 then toFixed_number 1 (weighted_mean bestImages) else Num 0)"

text \<open>
  The handler. A body without an \<^verbatim>\<open>images\<close> array makes \<^verbatim>\<open>images.map\<close> throw; an
  \<^verbatim>\<open>undefined\<close> representative would make \<^verbatim>\<open>img.area\<close> throw. The body of the
  response is the report before \<^verbatim>\<open>JSON.stringify\<close>.
\<close>

definition handler ::
  "env \<Rightarrow> ((string \<times> buffer) list \<Rightarrow> (string \<times> buffer) list) \<Rightarrow> event \<Rightarrow> error + response" where
  "handler e sched ev =
     (case images ev of
        None \<Rightarrow> Inl TypeError
      | Some urls \<Rightarrow>
          (let st = collect e sched urls;
               groups = groupByHash (photoData st)
           in case those (map best_of groups) of
                None \<Rightarrow> Inl TypeError
              | Some bestImages \<Rightarrow>
                  Inr \<lparr>statusCode = 200,
                       body =
                         \<lparr>report_claim_id = claim_id ev,
                          report_source_images =
                            \<lparr>total = length urls,
                             analyzed = analyzed_var st,
                             discarded = discarded_var st,
                             clusters = length groups\<rparr>,
                          overall_damage_severity = overallSeverity bestImages,
                          areas = finalAreas (loss_type ev) bestImages,
                          data_gaps =
                            (if analyzed_var st < 3 then [''Very few usable images''] else []),
                          confidence = toFixed 2 (random_value e * (95 / 100 - 7 / 10) + 7 / 10),
                          generated_at = now_iso e\<rparr>\<rparr>))"


section \<open>The specification's notions\<close>

text \<open>
  The definitions of this section follow the words of the specification, not the code;
  the theorems below compare the code with them.

  The area an indicator name stands for (roof and shingle for the roof, garage and door
  for the garage, wall, siding and panel for the siding), and the test for damage
  evidence: the lowercased name contains one of the damage keywords.
\<close>

definition area_of_name :: "string \<Rightarrow> string option" where
  "area_of_name name =
     (if name \<in> set [''roof'', ''shingle''] then Some ''roof''
      else if name \<in> set [''garage'', ''door''] then Some ''garage''
      else if name \<in> set [''wall'', ''siding'', ''panel''] then Some ''siding''
      else None)"

definition is_damage :: "string \<Rightarrow> bool" where
  "is_damage name = (\<exists>kw \<in> set damageKeywords. sublist kw name)"

text \<open>The damage-evidence labels of a label list, and the areas its indicators name, in order.\<close>

definition damage_evidence :: "Label list \<Rightarrow> Label list" where
  "damage_evidence labels =
     filter (\<lambda>L. 50 \<le> label_confidence L \<and> is_damage (label_name L)) labels"

definition area_hits :: "Label list \<Rightarrow> string list" where
  "area_hits labels =
     List.map_filter
       (\<lambda>L. if 50 \<le> label_confidence L then area_of_name (label_name L) else None) labels"

text \<open>A label with both fields present, for the examples.\<close>

definition mk_label :: "string \<Rightarrow> rat \<Rightarrow> Label" where
  "mk_label n c = \<lparr>Name = Some n, Confidence = Some c\<rparr>"


text \<open>
  Clustering as the specification describes it: the first record seeds a cluster, the
  later records within distance 3 of the seed join it, and the remaining records are
  clustered in the same way.
\<close>

definition close_to :: "ImageAnalysisResult \<Rightarrow> ImageAnalysisResult \<Rightarrow> bool" where
  "close_to seed x = (hammingDistance (hash seed) (hash x) \<le> 3)"

fun greedy_clusters :: "ImageAnalysisResult list \<Rightarrow> ImageAnalysisResult list list" where
  "greedy_clusters [] = []"
| "greedy_clusters (x # xs) =
     (x # filter (close_to x) xs) # greedy_clusters (filter (\<lambda>y. \<not> close_to x y) xs)"

text \<open>The records from index \<open>j\<close> on that the \<^verbatim>\<open>visited\<close> array does not mark.\<close>

definition unvisited_from ::
  "ImageAnalysisResult list \<Rightarrow> bool list \<Rightarrow> nat \<Rightarrow> ImageAnalysisResult list" where
  "unvisited_from imgs visited j =
     map (nth imgs) (filter (\<lambda>k. \<not> visited ! k) [j..<length imgs])"

text \<open>An analysed image, for the examples.\<close>

definition mk_image :: "string \<Rightarrow> string \<Rightarrow> int \<Rightarrow> rat \<Rightarrow> string \<Rightarrow> ImageAnalysisResult" where
  "mk_image u a s q h = \<lparr>url = u, area = a, severity = s, quality = q, hash = h\<rparr>"


text \<open>
  What becomes of one image of the request: the result of its fetch, the record that
  classification and hashing make of a fetched image, and the ways in which an image
  fails (the fetch exhausts its retries, the detection call errors, the classification
  discards, or the hash task is rejected).
\<close>

definition fetched :: "env \<Rightarrow> string \<Rightarrow> (string \<times> buffer) option" where
  "fetched e u = (case fetchWithRetry e u of Inl err \<Rightarrow> None | Inr buffer \<Rightarrow> Some (u, buffer))"

definition analysis :: "env \<Rightarrow> string \<times> buffer \<Rightarrow> ImageAnalysisResult option" where
  "analysis e img =
     (case img of (u, buffer) \<Rightarrow>
        (case detectLabels e buffer of
           Inl err \<Rightarrow> None
         | Inr Labels \<Rightarrow>
             (case classifyDamage (case Labels of None \<Rightarrow> [] | Some ls \<Rightarrow> ls) of
                Discard \<Rightarrow> None
              | Keep a sev q \<Rightarrow>
                  (case runTask_hash e buffer of
                     Inl err \<Rightarrow> None
                   | Inr h \<Rightarrow>
                       Some \<lparr>url = u, area = a, severity = sev, quality = q, hash = h\<rparr>))))"

definition image_fails :: "env \<Rightarrow> string \<Rightarrow> bool" where
  "image_fails e u =
     (case fetchWithRetry e u of
        Inl err \<Rightarrow> True
      | Inr buffer \<Rightarrow>
          (case detectLabels e buffer of
             Inl err \<Rightarrow> True
           | Inr Labels \<Rightarrow>
               classifyDamage (case Labels of None \<Rightarrow> [] | Some ls \<Rightarrow> ls) = Discard \<or>
               isl (runTask_hash e buffer)))"

text \<open>The representatives of the clusters of the analysed images.\<close>

definition representatives :: "ImageAnalysisResult list \<Rightarrow> ImageAnalysisResult list" where
  "representatives imgs = map (the \<circ> best_of) (groupByHash imgs)"



text \<open>
  An environment for the examples. The fetch of one URL always fails and that of another
  succeeds at the third attempt, the bytes of an image being the characters of its URL;
  the detection call errors on one image and returns labels on the others; the hash task
  returns the first 16 hexadecimal digits of the SHA-1 digest of the bytes for two images
  and is rejected on the others.
\<close>

definition example_env :: env where
  "example_env =
     \<lparr>fetch = (\<lambda>u i.
         if u = ''img/missing'' then None
         else if u = ''img/flaky'' \<and> i < 2 then None
         else Some (map of_char u)),
      detectLabels = (\<lambda>b.
         if b = map of_char ''img/svc-error'' then Inl ServiceError
         else if b = map of_char ''img/tree'' then Inr (Some [mk_label ''Tree'' 99])
         else if b = map of_char ''img/debris''
           then Inr (Some [mk_label ''Hail Damage'' 90, mk_label ''Roof'' 45])
         else Inr (Some [mk_label ''Roof'' 90, mk_label ''Roof Damage'' 80])),
      runTask_hash = (\<lambda>b.
         if b = map of_char ''img/flaky'' then Inr ''b95621fb679464cd''
         else if b = map of_char ''img/debris'' then Inr ''35bb162ac607df36''
         else Inl TaskError),
      random_value = 1 / 2,
      now_iso = ''2025-01-01T00:00:00.000Z''\<rparr>"

definition example_event :: event where
  "example_event =
     \<lparr>claim_id = ''CLM-2025-00123'',
      images = Some [''img/missing'', ''img/svc-error'', ''img/tree'', ''img/bad-hash'',
                     ''img/flaky'', ''img/debris''],
      loss_type = ''wind''\<rparr>"




definition counts_of :: "error + response \<Rightarrow> (nat \<times> source_images) option" where
  "counts_of res =
     (case res of Inl err \<Rightarrow> None | Inr r \<Rightarrow> Some (statusCode r, report_source_images (body r)))"


section \<open>Properties of the classification\<close>

lemma includes_str_iff: "includes_str s kw = sublist kw s"
  by (induction s) (auto simp: sublist_Cons_right)

lemma area_var_step:
  "area_var (classify_step s L) =
     (if 50 \<le> label_confidence L
      then (case area_of_name (label_name L) of None \<Rightarrow> area_var s | Some a \<Rightarrow> Some a)
      else area_var s)"
  by (simp add: classify_step_def Let_def area_of_name_def not_less)

lemma damageLabels_step:
  "damageLabels (classify_step s L) =
     damageLabels s @ (if 50 \<le> label_confidence L \<and> is_damage (label_name L) then [L] else [])"
  by (simp add: classify_step_def Let_def is_damage_def not_less list_ex_iff includes_str_iff)

lemma damageLabels_foldl:
  "damageLabels (foldl classify_step s labels) = damageLabels s @ damage_evidence labels"
  by (induction labels arbitrary: s) (simp_all add: damage_evidence_def damageLabels_step)

lemma area_hits_Cons:
  "area_hits (L # labels) =
     (if 50 \<le> label_confidence L
      then (case area_of_name (label_name L) of
              None \<Rightarrow> area_hits labels
            | Some a \<Rightarrow> a # area_hits labels)
      else area_hits labels)"
  by (simp add: area_hits_def split: option.splits)

lemma area_var_foldl:
  "area_var (foldl classify_step s labels) =
     (if area_hits labels = [] then area_var s else Some (last (area_hits labels)))"
  by (induction labels arbitrary: s)
     (simp_all add: area_hits_Cons area_var_step area_hits_def split: option.splits)

lemma area_hits_append: "area_hits (xs @ ys) = area_hits xs @ area_hits ys"
  by (simp add: area_hits_def List.map_filter_def)

lemma area_hits_empty_iff:
  "area_hits labels = [] \<longleftrightarrow>
     (\<forall>L \<in> set labels. 50 \<le> label_confidence L \<longrightarrow> area_of_name (label_name L) = None)"
  by (induction labels) (auto simp: area_hits_Cons area_hits_def split: option.splits)

lemma damage_evidence_empty_iff:
  "damage_evidence labels = [] \<longleftrightarrow>
     (\<forall>L \<in> set labels. 50 \<le> label_confidence L \<longrightarrow> \<not> is_damage (label_name L))"
  by (auto simp: damage_evidence_def filter_empty_conv)

lemma foldl_add_sum_list:
  "foldl (\<lambda>sum x. sum + f x) (a::rat) xs = a + sum_list (map f xs)"
  by (induction xs arbitrary: a) (simp_all add: add.assoc)

text \<open>The result of \<^verbatim>\<open>classifyDamage\<close> in terms of the two lists.\<close>

lemma classifyDamage_unfold:
  "classifyDamage labels =
     (if area_hits labels = [] \<and> damage_evidence labels = [] then Discard
      else Keep (if area_hits labels = [] then ''unknown'' else last (area_hits labels))
                (min 4 (js_round (avgConfidence (damage_evidence labels) / 25)))
                (if blurry (foldl classify_step scan_init labels) \<or>
                    dark (foldl classify_step scan_init labels)
                 then 6 / 10 else 1))"
  by (simp add: classifyDamage_def Let_def area_var_foldl damageLabels_foldl scan_init_def)

lemma avgConfidence_eq:
  "avgConfidence dl =
     (if dl = [] then 0 else sum_list (map label_confidence dl) / of_nat (length dl))"
  by (simp add: avgConfidence_def foldl_add_sum_list)

lemma avg_evidence_ge: "0 \<le> avgConfidence (damage_evidence labels)"
proof -
  have "\<forall>L \<in> set (damage_evidence labels). 0 \<le> label_confidence L"
    by (auto simp: damage_evidence_def)
  then have "0 \<le> sum_list (map label_confidence (damage_evidence labels))"
    by (intro sum_list_nonneg) auto
  then show ?thesis
    by (simp add: avgConfidence_eq)
qed

lemma js_round_nonneg: "0 \<le> x \<Longrightarrow> 0 \<le> js_round x"
  by (simp add: js_round_def)

text \<open>
  Claim C2. The area that the classification assigns is the one named by the last label,
  in list order, whose confidence is at least 50 and whose lowercased name is an area
  indicator: whatever precedes that label (a roof indicator of any confidence, say) and
  whatever the confidences are, a label list whose last such label is a siding indicator
  is classified as siding.
\<close>

theorem classifyDamage_area_last_match:
  assumes "labels = pre @ L # post"
    and "50 \<le> label_confidence L"
    and "area_of_name (label_name L) = Some a"
    and "\<forall>M \<in> set post. 50 \<le> label_confidence M \<longrightarrow> area_of_name (label_name M) = None"
  shows "\<exists>sev q. classifyDamage labels = Keep a sev q"
proof -
  have "area_hits post = []"
    using assms(4) by (simp add: area_hits_empty_iff)
  then have "area_hits labels = area_hits pre @ [a]"
    using assms(1-3) by (simp add: area_hits_append area_hits_Cons)
  then show ?thesis
    by (simp add: classifyDamage_unfold)
qed

text \<open>
  A roof indicator of confidence 99 followed by a siding indicator of confidence 51 (and
  by a garage indicator below the floor): the area is the siding.
\<close>

theorem classifyDamage_area_last_match_witness:
  "50 \<le> label_confidence (mk_label ''Siding'' 51) \<and>
   area_of_name (label_name (mk_label ''Roof'' 99)) = Some ''roof'' \<and>
   area_of_name (label_name (mk_label ''Siding'' 51)) = Some ''siding'' \<and>
   \<not> 50 \<le> label_confidence (mk_label ''Door'' 49) \<and>
   (\<exists>sev q. classifyDamage
      [mk_label ''Roof'' 99, mk_label ''Tree'' 80, mk_label ''Siding'' 51, mk_label ''Door'' 49]
      = Keep ''siding'' sev q)"
proof -
  have h2: "50 \<le> label_confidence (mk_label ''Siding'' 51)"
    by code_simp
  have h3: "area_of_name (label_name (mk_label ''Siding'' 51)) = Some ''siding''"
    by code_simp
  have h4: "\<forall>M \<in> set [mk_label ''Door'' 49].
      50 \<le> label_confidence M \<longrightarrow> area_of_name (label_name M) = None"
    by code_simp
  have h5: "area_of_name (label_name (mk_label ''Roof'' 99)) = Some ''roof''"
    by code_simp
  have "\<exists>sev q. classifyDamage
      ([mk_label ''Roof'' 99, mk_label ''Tree'' 80] @ mk_label ''Siding'' 51 # [mk_label ''Door'' 49])
      = Keep ''siding'' sev q"
    using classifyDamage_area_last_match [OF refl h2 h3 h4] .
  moreover have "\<not> 50 \<le> label_confidence (mk_label ''Door'' 49)"
    by code_simp
  ultimately show ?thesis
    using h2 h3 h5 by simp
qed



text \<open>
  Claim C4. The classification discards an image if and only if no label of confidence at
  least 50 is an area indicator and no label of confidence at least 50 is damage evidence;
  as soon as one such label is an indicator or evidence, the image is kept.
\<close>

theorem classifyDamage_discard_iff:
  "classifyDamage labels = Discard \<longleftrightarrow>
     (\<forall>L \<in> set labels. 50 \<le> label_confidence L \<longrightarrow>
        area_of_name (label_name L) = None \<and> \<not> is_damage (label_name L))"
  by (auto simp: classifyDamage_unfold area_hits_empty_iff damage_evidence_empty_iff)

text \<open>
  A roof indicator and an evidence label, both below the floor, beside a label that is
  neither: discarded. With the evidence label at the floor: kept.
\<close>

theorem classifyDamage_discard_iff_witness:
  "classifyDamage [mk_label ''Roof'' 49, mk_label ''Tree'' 99, mk_label ''Hail Damage'' 40]
     = Discard \<and>
   classifyDamage [mk_label ''Roof'' 49, mk_label ''Tree'' 99, mk_label ''Hail Damage'' 50]
     \<noteq> Discard"
proof -
  have a: "\<forall>L \<in> set [mk_label ''Roof'' 49, mk_label ''Tree'' 99, mk_label ''Hail Damage'' 40].
      50 \<le> label_confidence L \<longrightarrow>
        area_of_name (label_name L) = None \<and> \<not> is_damage (label_name L)"
    by code_simp
  have b: "\<not> (\<forall>L \<in> set [mk_label ''Roof'' 49, mk_label ''Tree'' 99, mk_label ''Hail Damage'' 50].
      50 \<le> label_confidence L \<longrightarrow>
        area_of_name (label_name L) = None \<and> \<not> is_damage (label_name L))"
    by code_simp
  show ?thesis
    using a b
      classifyDamage_discard_iff
        [of "[mk_label ''Roof'' 49, mk_label ''Tree'' 99, mk_label ''Hail Damage'' 40]"]
      classifyDamage_discard_iff
        [of "[mk_label ''Roof'' 49, mk_label ''Tree'' 99, mk_label ''Hail Damage'' 50]"]
    by blast
qed



section \<open>Properties of the clustering\<close>

text \<open>
  The loops of \<^verbatim>\<open>groupByHash\<close> over the indices and the \<^verbatim>\<open>visited\<close> array compute
  the greedy clustering of the specification.
\<close>

lemma unvisited_from_step:
  "j < length imgs \<Longrightarrow>
   unvisited_from imgs visited j =
     (if visited ! j then [] else [imgs ! j]) @ unvisited_from imgs visited (Suc j)"
  by (simp add: unvisited_from_def upt_conv_Cons)

lemma unvisited_from_end: "length imgs \<le> j \<Longrightarrow> unvisited_from imgs visited j = []"
  by (simp add: unvisited_from_def)

lemma unvisited_from_cong:
  "(\<And>k. j \<le> k \<Longrightarrow> k < length imgs \<Longrightarrow> v ! k = w ! k) \<Longrightarrow>
   unvisited_from imgs v j = unvisited_from imgs w j"
  unfolding unvisited_from_def
  by (rule arg_cong [where f = "map (nth imgs)"], rule filter_cong) auto

lemma unvisited_from_mark:
  "i < j \<Longrightarrow> unvisited_from imgs (visited[i := True]) j = unvisited_from imgs visited j"
  by (rule unvisited_from_cong) simp

lemma group_scan_spec:
  "length visited = length imgs \<Longrightarrow>
   fst (group_scan imgs i j grp visited) =
     grp @ filter (close_to (imgs ! i)) (unvisited_from imgs visited j) \<and>
   length (snd (group_scan imgs i j grp visited)) = length imgs \<and>
   (\<forall>k < length imgs. snd (group_scan imgs i j grp visited) ! k =
      (visited ! k \<or> (j \<le> k \<and> close_to (imgs ! i) (imgs ! k))))"
proof (induction imgs i j grp visited rule: group_scan.induct)
  case (1 images i j grp visited)
  show ?case
  proof (cases "j < length images")
    case False
    then show ?thesis
      by (simp add: group_scan.simps [of images i j] unvisited_from_end "1.prems")
  next
    case j: True
    show ?thesis
    proof (cases "\<not> visited ! j \<and> hammingDistance (hash (images ! i)) (hash (images ! j)) \<le> 3")
      case True
      have len: "length (visited[j := True]) = length images"
        using "1.prems" by simp
      note IH = "1.IH"(1) [OF j True len]
      have eq: "group_scan images i j grp visited =
          group_scan images i (Suc j) (grp @ [images ! j]) (visited[j := True])"
        using j True by (simp add: group_scan.simps [of images i j])
      have "\<forall>k<length images.
          (visited[j := True] ! k \<or> Suc j \<le> k \<and> close_to (images ! i) (images ! k)) =
          (visited ! k \<or> j \<le> k \<and> close_to (images ! i) (images ! k))"
        using True "1.prems" j by (auto simp: nth_list_update close_to_def le_Suc_eq split: if_splits)
      then show ?thesis
        using IH True j
        by (simp add: eq unvisited_from_step [OF j] unvisited_from_mark close_to_def)
    next
      case False
      note IH = "1.IH"(2) [OF j False "1.prems"]
      have eq: "group_scan images i j grp visited = group_scan images i (Suc j) grp visited"
        using j False by (subst group_scan.simps) auto
      have "\<forall>k<length images.
          (visited ! k \<or> Suc j \<le> k \<and> close_to (images ! i) (images ! k)) =
          (visited ! k \<or> j \<le> k \<and> close_to (images ! i) (images ! k))"
        using False by (auto simp: close_to_def Suc_le_eq order_le_less)
      then show ?thesis
        using IH False j
        by (auto simp add: eq unvisited_from_step [OF j] close_to_def)
    qed
  qed
qed

lemma unvisited_after_scan:
  assumes "\<forall>k < length imgs. w ! k = (v ! k \<or> (Suc i \<le> k \<and> close_to (imgs ! i) (imgs ! k)))"
  shows "unvisited_from imgs w (Suc i) =
         filter (\<lambda>y. \<not> close_to (imgs ! i) y) (unvisited_from imgs v (Suc i))"
proof -
  have "filter (\<lambda>k. \<not> w ! k) [Suc i..<length imgs] =
        filter (\<lambda>k. \<not> v ! k \<and> \<not> close_to (imgs ! i) (imgs ! k)) [Suc i..<length imgs]"
    using assms by (intro filter_cong) auto
  then show ?thesis
    by (simp add: unvisited_from_def filter_map o_def)
qed

lemma group_loop_spec:
  "length visited = length imgs \<Longrightarrow>
   group_loop imgs i groups visited = groups @ greedy_clusters (unvisited_from imgs visited i)"
proof (induction imgs i groups visited rule: group_loop.induct)
  case (1 images i groups visited)
  show ?case
  proof (cases "i < length images")
    case False
    then show ?thesis
      by (simp add: group_loop.simps [of images i] unvisited_from_end)
  next
    case i: True
    show ?thesis
    proof (cases "visited ! i")
      case True
      then show ?thesis
        using "1.IH"(1) [OF i True "1.prems"] i
        by (simp add: group_loop.simps [of images i] unvisited_from_step [OF i])
    next
      case False
      obtain grp visited' where scan:
        "group_scan images i (Suc i) [images ! i] (visited[i := True]) = (grp, visited')"
        by (cases "group_scan images i (Suc i) [images ! i] (visited[i := True])")
      have len: "length (visited[i := True]) = length images"
        using "1.prems" by simp
      from group_scan_spec [OF len, of i "Suc i" "[images ! i]"] scan
      have grp: "grp = images ! i # filter (close_to (images ! i)) (unvisited_from images visited (Suc i))"
        and len': "length visited' = length images"
        and vis: "\<forall>k < length images. visited' ! k =
            ((visited[i := True]) ! k \<or> (Suc i \<le> k \<and> close_to (images ! i) (images ! k)))"
        by (simp_all add: unvisited_from_mark)
      have "unvisited_from images visited' (Suc i) =
          filter (\<lambda>y. \<not> close_to (images ! i) y) (unvisited_from images (visited[i := True]) (Suc i))"
        by (rule unvisited_after_scan) (use vis in simp)
      then have rest: "unvisited_from images visited' (Suc i) =
          filter (\<lambda>y. \<not> close_to (images ! i) y) (unvisited_from images visited (Suc i))"
        by (simp add: unvisited_from_mark)
      have "group_loop images i groups visited = group_loop images (Suc i) (groups @ [grp]) visited'"
        using i False scan by (simp add: group_loop.simps [of images i])
      also have "\<dots> = (groups @ [grp]) @ greedy_clusters (unvisited_from images visited' (Suc i))"
        using "1.IH"(2) [OF i False scan [symmetric] len'] .
      finally show ?thesis
        using False by (simp add: unvisited_from_step [OF i] grp rest)
    qed
  qed
qed

lemma unvisited_from_start: "unvisited_from imgs (replicate (length imgs) False) 0 = imgs"
proof -
  have "filter (\<lambda>k. \<not> replicate (length imgs) False ! k) [0..<length imgs] = [0..<length imgs]"
    by (rule filter_True) simp
  then show ?thesis
    by (simp add: unvisited_from_def map_nth)
qed

lemma groupByHash_greedy: "groupByHash imgs = greedy_clusters imgs"
  by (simp add: groupByHash_def group_loop_spec unvisited_from_start)

lemma greedy_clusters_seeded:
  "g \<in> set (greedy_clusters xs) \<Longrightarrow>
   \<exists>seed rest. g = seed # rest \<and> (\<forall>m \<in> set rest. close_to seed m) \<and> set g \<subseteq> set xs"
proof (induction xs arbitrary: g rule: greedy_clusters.induct)
  case 1
  then show ?case by simp
next
  case (2 x xs)
  from "2.prems" consider "g = x # filter (close_to x) xs"
    | "g \<in> set (greedy_clusters (filter (\<lambda>y. \<not> close_to x y) xs))"
    by auto
  then show ?case
  proof cases
    case 1
    then show ?thesis by auto
  next
    case 2
    from "2.IH" [OF 2] show ?thesis by auto
  qed
qed


lemma greedy_clusters_mset: "mset (concat (greedy_clusters xs)) = mset xs"
  by (induction xs rule: greedy_clusters.induct) (simp_all add: multiset_partition [symmetric] ac_simps)

lemma three_hashes:
  assumes "map hash imgs = [h1, h2, h3]"
  obtains a b c where "imgs = [a, b, c]" "hash a = h1" "hash b = h2" "hash c = h3"
  using assms by (auto simp: map_eq_Cons_conv)

text \<open>
  Claim C5, as amended. The clustering is the single-pass greedy one and is not transitive:
  every cluster is a seed followed by records whose fingerprints are within distance 3 of
  the seed's fingerprint (the distance to other members plays no part). For the
  fingerprints 0000, 0011, 0110 in that order there is one cluster of all three, since
  0110 is at distance 2 from the seed 0000; for 0000, 0011, 1111 there are two clusters,
  the first two records and the third alone, although 1111 is at distance 2 from 0011.
\<close>

theorem groupByHash_greedy_seed:
  "groupByHash imgs = greedy_clusters imgs \<and>
   (\<forall>g \<in> set (groupByHash imgs). \<exists>seed rest. g = seed # rest \<and>
        (\<forall>m \<in> set rest. hammingDistance (hash seed) (hash m) \<le> 3)) \<and>
   (map hash imgs = [''0000'', ''0011'', ''0110''] \<longrightarrow>
      map (map hash) (groupByHash imgs) = [[''0000'', ''0011'', ''0110'']]) \<and>
   (map hash imgs = [''0000'', ''0011'', ''1111''] \<longrightarrow>
      map (map hash) (groupByHash imgs) = [[''0000'', ''0011''], [''1111'']])"
proof (intro conjI ballI impI)
  show "groupByHash imgs = greedy_clusters imgs"
    by (rule groupByHash_greedy)
next
  fix g assume "g \<in> set (groupByHash imgs)"
  then show "\<exists>seed rest. g = seed # rest \<and>
        (\<forall>m \<in> set rest. hammingDistance (hash seed) (hash m) \<le> 3)"
    using greedy_clusters_seeded [of g imgs] by (auto simp: groupByHash_greedy close_to_def)
next
  assume "map hash imgs = [''0000'', ''0011'', ''0110'']"
  then obtain a b c where "imgs = [a, b, c]" "hash a = ''0000''" "hash b = ''0011''" "hash c = ''0110''"
    by (rule three_hashes)
  then show "map (map hash) (groupByHash imgs) = [[''0000'', ''0011'', ''0110'']]"
    by (simp add: groupByHash_greedy close_to_def)
next
  assume "map hash imgs = [''0000'', ''0011'', ''1111'']"
  then obtain a b c where "imgs = [a, b, c]" "hash a = ''0000''" "hash b = ''0011''" "hash c = ''1111''"
    by (rule three_hashes)
  then show "map (map hash) (groupByHash imgs) = [[''0000'', ''0011''], [''1111'']]"
    by (simp add: groupByHash_greedy close_to_def)
qed

theorem groupByHash_greedy_seed_witness:
  "map hash [mk_image ''A'' ''roof'' 1 1 ''0000'', mk_image ''B'' ''roof'' 1 1 ''0011'',
             mk_image ''C'' ''roof'' 1 1 ''1111''] = [''0000'', ''0011'', ''1111''] \<and>
   map (map hash) (groupByHash
            [mk_image ''A'' ''roof'' 1 1 ''0000'', mk_image ''B'' ''roof'' 1 1 ''0011'',
             mk_image ''C'' ''roof'' 1 1 ''1111'']) = [[''0000'', ''0011''], [''1111'']] \<and>
   hammingDistance ''0000'' ''0011'' = 2 \<and>
   hammingDistance ''0000'' ''1111'' = 4 \<and>
   hammingDistance ''0011'' ''1111'' = 2"
proof -
  have h: "map hash [mk_image ''A'' ''roof'' 1 1 ''0000'', mk_image ''B'' ''roof'' 1 1 ''0011'',
             mk_image ''C'' ''roof'' 1 1 ''1111''] = [''0000'', ''0011'', ''1111'']"
    by (simp add: mk_image_def)
  have d: "hammingDistance ''0000'' ''0011'' = 2 \<and> hammingDistance ''0000'' ''1111'' = 4 \<and>
      hammingDistance ''0011'' ''1111'' = 2"
    by simp
  note t = groupByHash_greedy_seed
        [of "[mk_image ''A'' ''roof'' 1 1 ''0000'', mk_image ''B'' ''roof'' 1 1 ''0011'',
              mk_image ''C'' ''roof'' 1 1 ''1111'']"]
  have g: "map (map hash) (groupByHash
            [mk_image ''A'' ''roof'' 1 1 ''0000'', mk_image ''B'' ''roof'' 1 1 ''0011'',
             mk_image ''C'' ''roof'' 1 1 ''1111'']) = [[''0000'', ''0011''], [''1111'']]"
    by (rule t [THEN conjunct2, THEN conjunct2, THEN conjunct2, THEN mp, OF h])
  show ?thesis
    by (intro conjI h g d [THEN conjunct1] d [THEN conjunct2, THEN conjunct1]
          d [THEN conjunct2, THEN conjunct2])
qed

text \<open>
  The claim as it stands fails on its own example: the records with the fingerprints
  0000, 0011 and 0110 form one cluster.
\<close>

theorem groupByHash_example_counterexample:
  "map (map url) (groupByHash
     [mk_image ''A'' ''roof'' 1 1 ''0000'', mk_image ''B'' ''roof'' 1 1 ''0011'',
      mk_image ''C'' ''roof'' 1 1 ''0110'']) = [[''A'', ''B'', ''C'']] \<and>
   map (map url) (groupByHash
     [mk_image ''A'' ''roof'' 1 1 ''0000'', mk_image ''B'' ''roof'' 1 1 ''0011'',
      mk_image ''C'' ''roof'' 1 1 ''0110'']) \<noteq> [[''A'', ''B''], [''C'']] \<and>
   hammingDistance ''0000'' ''0110'' = 2"
  by code_simp


section \<open>Properties of the representative\<close>

lemma best_of_Nil: "best_of [] = None"
  by (simp add: best_of_def sort_by_quality_def)

lemma best_of_Cons:
  "best_of (x # xs) =
     (case best_of xs of
        None \<Rightarrow> Some x
      | Some b \<Rightarrow> if quality b \<le> quality x then Some x else Some b)"
  by (cases "sort_key (\<lambda>i. - quality i) xs") (simp_all add: best_of_def sort_by_quality_def)

lemma best_of_decomposition:
  assumes "g \<noteq> []"
  shows "\<exists>pre r post. best_of g = Some r \<and> g = pre @ r # post \<and>
           (\<forall>x \<in> set pre. quality x < quality r) \<and>
           (\<forall>x \<in> set post. quality x \<le> quality r)"
  using assms
proof (induction g)
  case Nil
  then show ?case by simp
next
  case (Cons x xs)
  show ?case
  proof (cases "xs = []")
    case True
    then have "best_of (x # xs) = Some x \<and> x # xs = [] @ x # []"
      by (simp add: best_of_Cons best_of_Nil)
    then show ?thesis by fastforce
  next
    case False
    from Cons.IH [OF False] obtain pre b post where
      b: "best_of xs = Some b" "xs = pre @ b # post"
        "\<forall>y \<in> set pre. quality y < quality b" "\<forall>y \<in> set post. quality y \<le> quality b"
      by blast
    show ?thesis
    proof (cases "quality b \<le> quality x")
      case True
      then have "best_of (x # xs) = Some x" "x # xs = [] @ x # xs"
        "\<forall>y \<in> set xs. quality y \<le> quality x"
        using b by (auto simp: best_of_Cons)
      then show ?thesis by (metis empty_iff list.set(1))
    next
      case False
      then have "best_of (x # xs) = Some b" "x # xs = (x # pre) @ b # post"
        "\<forall>y \<in> set (x # pre). quality y < quality b"
        using b by (auto simp: best_of_Cons)
      then show ?thesis using b(4) by blast
    qed
  qed
qed

text \<open>
  Claim C6. The representative of a non-empty cluster is a member of maximal quality, and
  among the members of that quality the one that comes first in the cluster: every member
  before it has a strictly smaller quality, and no member after it has a larger one. The
  sort that selects it keeps the members of equal quality in their order.
\<close>

theorem best_of_first_maximal:
  assumes "g \<noteq> []"
  shows "(\<exists>pre r post. best_of g = Some r \<and> g = pre @ r # post \<and>
            (\<forall>x \<in> set pre. quality x < quality r) \<and>
            (\<forall>x \<in> set post. quality x \<le> quality r)) \<and>
         (\<forall>k. filter (\<lambda>x. quality x = k) (sort_by_quality g) =
               filter (\<lambda>x. quality x = k) g)"
proof
  show "\<exists>pre r post. best_of g = Some r \<and> g = pre @ r # post \<and>
            (\<forall>x \<in> set pre. quality x < quality r) \<and>
            (\<forall>x \<in> set post. quality x \<le> quality r)"
    using assms by (rule best_of_decomposition)
next
  show "\<forall>k. filter (\<lambda>x. quality x = k) (sort_by_quality g) =
               filter (\<lambda>x. quality x = k) g"
  proof
    fix k
    show "filter (\<lambda>x. quality x = k) (sort_by_quality g) = filter (\<lambda>x. quality x = k) g"
      using sort_key_stable [of "\<lambda>i. - quality i" "- k" g]
      by (simp add: sort_by_quality_def)
  qed
qed

text \<open>
  Two members of quality 1 after one of quality 0.6: the representative is the first of
  the two.
\<close>

theorem best_of_first_maximal_witness:
  "[mk_image ''A'' ''roof'' 2 (6 / 10) ''0000'', mk_image ''B'' ''roof'' 4 1 ''0011'',
    mk_image ''C'' ''roof'' 3 1 ''0011''] \<noteq> [] \<and>
   best_of [mk_image ''A'' ''roof'' 2 (6 / 10) ''0000'', mk_image ''B'' ''roof'' 4 1 ''0011'',
            mk_image ''C'' ''roof'' 3 1 ''0011''] = Some (mk_image ''B'' ''roof'' 4 1 ''0011'') \<and>
   map url (sort_by_quality
           [mk_image ''A'' ''roof'' 2 (6 / 10) ''0000'', mk_image ''B'' ''roof'' 4 1 ''0011'',
            mk_image ''C'' ''roof'' 3 1 ''0011'']) = [''B'', ''C'', ''A''] \<and>
   filter (\<lambda>x. quality x = 1) (sort_by_quality
           [mk_image ''A'' ''roof'' 2 (6 / 10) ''0000'', mk_image ''B'' ''roof'' 4 1 ''0011'',
            mk_image ''C'' ''roof'' 3 1 ''0011'']) =
   filter (\<lambda>x. quality x = 1)
           [mk_image ''A'' ''roof'' 2 (6 / 10) ''0000'', mk_image ''B'' ''roof'' 4 1 ''0011'',
            mk_image ''C'' ''roof'' 3 1 ''0011'']"
proof -
  let ?g = "[mk_image ''A'' ''roof'' 2 (6 / 10) ''0000'', mk_image ''B'' ''roof'' 4 1 ''0011'',
            mk_image ''C'' ''roof'' 3 1 ''0011'']"
  have ne: "?g \<noteq> []"
    by simp
  have v: "best_of ?g = Some (mk_image ''B'' ''roof'' 4 1 ''0011'')"
    by code_simp
  have o: "map url (sort_by_quality ?g) = [''B'', ''C'', ''A'']"
    by code_simp
  note t = best_of_first_maximal [OF ne]
  have s: "filter (\<lambda>x. quality x = 1) (sort_by_quality ?g) = filter (\<lambda>x. quality x = 1) ?g"
    by (rule t [THEN conjunct2, THEN spec])
  show ?thesis
    by (intro conjI ne v o s)
qed



section \<open>Properties of the aggregation\<close>

text \<open>
  The entries of \<^verbatim>\<open>areaMap\<close>: one for each area among the representatives, holding the
  representatives of that area in their order.
\<close>

lemma areaMap_push_keys:
  "map fst (areaMap_push m img) =
     (if area img \<in> fst ` set m then map fst m else map fst m @ [area img])"
  by (induction m img rule: areaMap_push.induct) auto

lemma areaMap_push_lookup:
  "map_of (areaMap_push m img) k =
     (if k = area img
      then Some (case map_of m k of None \<Rightarrow> [img] | Some v \<Rightarrow> v @ [img])
      else map_of m k)"
  by (induction m img rule: areaMap_push.induct) auto

lemma areaMap_keys_distinct: "distinct (map fst (foldl areaMap_push [] best))"
  by (induction best rule: rev_induct) (simp_all add: areaMap_push_keys)


lemma filter_area_empty: "k \<notin> area ` set xs \<Longrightarrow> filter (\<lambda>i. area i = k) xs = []"
  by (auto simp: filter_empty_conv)

lemma areaMap_lookup:
  "map_of (foldl areaMap_push [] best) k =
     (if k \<in> area ` set best then Some (filter (\<lambda>i. area i = k) best) else None)"
  by (induction best rule: rev_induct) (auto simp: areaMap_push_lookup filter_area_empty)

lemma areaMap_entry:
  assumes "(k, v) \<in> set (foldl areaMap_push [] best)"
  shows "v = filter (\<lambda>i. area i = k) best \<and> v \<noteq> []"
proof -
  have "map_of (foldl areaMap_push [] best) k = Some v"
    using assms areaMap_keys_distinct by simp
  then have "k \<in> area ` set best" "v = filter (\<lambda>i. area i = k) best"
    by (auto simp: areaMap_lookup split: if_splits)
  then show ?thesis
    by (auto simp: filter_empty_conv)
qed

lemma finalAreas_entry:
  assumes "r \<in> set (finalAreas loss best)"
  shows "r = area_entry loss (area_res r, filter (\<lambda>i. area i = area_res r) best) \<and>
         filter (\<lambda>i. area i = area_res r) best \<noteq> []"
proof -
  from assms obtain k v where kv: "(k, v) \<in> set (foldl areaMap_push [] best)"
    and r: "r = area_entry loss (k, v)"
    by (auto simp: finalAreas_def)
  have "area_res r = k"
    by (simp add: r area_entry_def Let_def)
  then show ?thesis
    using areaMap_entry [OF kv] r by blast
qed







text \<open>
  Claim C8. For every area entry, the damage is confirmed if and only if at least two
  representatives of that area have a severity of at least 2.
\<close>

theorem finalAreas_damage_confirmed:
  assumes "r \<in> set (finalAreas loss bestImages)"
  shows "damage_confirmed r \<longleftrightarrow>
         2 \<le> length (filter (\<lambda>i. area i = area_res r \<and> 2 \<le> severity i) bestImages)"
proof -
  let ?imgs = "filter (\<lambda>i. area i = area_res r) bestImages"
  from finalAreas_entry [OF assms]
  have r: "r = area_entry loss (area_res r, ?imgs)"
    by simp
  have "damage_confirmed r \<longleftrightarrow> 2 \<le> length (filter (\<lambda>i. 2 \<le> severity i) ?imgs)"
    by (subst r) (simp add: area_entry_def Let_def)
  then show ?thesis
    by simp
qed

text \<open>One representative of severity 2 or more in the area: not confirmed; a second one: confirmed.\<close>

theorem finalAreas_damage_confirmed_witness:
  "map damage_confirmed (finalAreas ''wind''
     [mk_image ''u1'' ''roof'' 3 1 ''0000'', mk_image ''u2'' ''roof'' 1 1 ''ffff'',
      mk_image ''u3'' ''siding'' 4 1 ''8888'']) = [False, False] \<and>
   map damage_confirmed (finalAreas ''wind''
     [mk_image ''u1'' ''roof'' 3 1 ''0000'', mk_image ''u2'' ''roof'' 2 1 ''ffff'',
      mk_image ''u3'' ''siding'' 4 1 ''8888'']) = [True, False]"
proof -
  let ?one = "[mk_image ''u1'' ''roof'' 3 1 ''0000'', mk_image ''u2'' ''roof'' 1 1 ''ffff'',
      mk_image ''u3'' ''siding'' 4 1 ''8888'']"
  let ?two = "[mk_image ''u1'' ''roof'' 3 1 ''0000'', mk_image ''u2'' ''roof'' 2 1 ''ffff'',
      mk_image ''u3'' ''siding'' 4 1 ''8888'']"
  let ?r1 = "area_entry ''wind''
      (''roof'', [mk_image ''u1'' ''roof'' 3 1 ''0000'', mk_image ''u2'' ''roof'' 1 1 ''ffff''])"
  let ?r2 = "area_entry ''wind''
      (''roof'', [mk_image ''u1'' ''roof'' 3 1 ''0000'', mk_image ''u2'' ''roof'' 2 1 ''ffff''])"
  let ?s = "area_entry ''wind'' (''siding'', [mk_image ''u3'' ''siding'' 4 1 ''8888''])"
  have f1: "finalAreas ''wind'' ?one = [?r1, ?s]"
    by code_simp
  have f2: "finalAreas ''wind'' ?two = [?r2, ?s]"
    by code_simp
  have m1: "?r1 \<in> set (finalAreas ''wind'' ?one)"
    unfolding f1 by (rule list.set_intros(1))
  have m2: "?r2 \<in> set (finalAreas ''wind'' ?two)"
    unfolding f2 by (rule list.set_intros(1))
  have e1: "(2 \<le> length (filter (\<lambda>i. area i = area_res ?r1 \<and> 2 \<le> severity i) ?one)) = False"
    by code_simp
  have e2: "(2 \<le> length (filter (\<lambda>i. area i = area_res ?r2 \<and> 2 \<le> severity i) ?two)) = True"
    by code_simp
  have d1: "damage_confirmed ?r1 = False"
    using finalAreas_damage_confirmed [OF m1] unfolding e1 .
  have d2: "damage_confirmed ?r2 = True"
    using finalAreas_damage_confirmed [OF m2] unfolding e2 .
  have ds: "damage_confirmed ?s = False"
    by code_simp
  have c1: "map damage_confirmed (finalAreas ''wind'' ?one) = [False, False]"
    unfolding f1 list.map d1 ds by (rule refl)
  have c2: "map damage_confirmed (finalAreas ''wind'' ?two) = [True, False]"
    unfolding f2 list.map d2 ds by (rule refl)
  show ?thesis
    by (intro conjI c1 c2)
qed





section \<open>Properties of the handler\<close>

text \<open>
  The two phases of the handler in closed form: what the fetches leave, and what the image
  tasks add to the accumulators, whatever the order in which the tasks complete.
\<close>

lemma fetchWithRetry_attempts:
  "fetchWithRetry e u =
     (case fetch e u 0 of
        Some b \<Rightarrow> Inr b
      | None \<Rightarrow>
          (case fetch e u 1 of
             Some b \<Rightarrow> Inr b
           | None \<Rightarrow> (case fetch e u 2 of Some b \<Rightarrow> Inr b | None \<Rightarrow> Inl FetchFailed)))"
  by (simp add: fetchWithRetry_def fetchWithRetry_loop.simps [of e u 3] numeral_2_eq_2
        split: option.splits)

lemma fetch_task_step:
  "fetch_task e (rs, st) u =
     (rs @ [fetched e u], if fetched e u = None then discard_one st else st)"
  by (simp add: fetch_task_def fetched_def split: sum.splits)

lemma fetch_phase:
  "foldl (fetch_task e) (rs, st) urls =
     (rs @ map (fetched e) urls,
      st\<lparr>discarded_var := discarded_var st + length (filter (\<lambda>u. fetched e u = None) urls)\<rparr>)"
proof (induction urls arbitrary: rs st)
  case Nil
  then show ?case by simp
next
  case (Cons u urls)
  have "foldl (fetch_task e) (rs, st) (u # urls) =
        foldl (fetch_task e) (rs @ [fetched e u], if fetched e u = None then discard_one st else st) urls"
    by (simp only: foldl_Cons fetch_task_step)
  then show ?case
    by (simp add: Cons.IH discard_one_def)
qed

lemma validImages_of_fetched:
  "validImages_of (map (fetched e) urls) = List.map_filter (fetched e) urls"
  by (simp add: validImages_of_def List.map_filter_def filter_map o_def)

lemma classify_task_analysis:
  "classify_task e st img =
     (case analysis e img of
        None \<Rightarrow> discard_one st
      | Some r \<Rightarrow> st\<lparr>photoData := photoData st @ [r], analyzed_var := analyzed_var st + 1\<rparr>)"
  by (simp add: classify_task_def analysis_def split: prod.splits sum.splits classification.splits)

lemma classify_phase:
  "foldl (classify_task e) st imgs =
     st\<lparr>photoData := photoData st @ List.map_filter (analysis e) imgs,
        analyzed_var := analyzed_var st + length (filter (\<lambda>i. analysis e i \<noteq> None) imgs),
        discarded_var := discarded_var st + length (filter (\<lambda>i. analysis e i = None) imgs)\<rparr>"
proof (induction imgs arbitrary: st)
  case Nil
  then show ?case by simp
next
  case (Cons i imgs)
  have step: "foldl (classify_task e) st (i # imgs) =
      foldl (classify_task e)
        (case analysis e i of
           None \<Rightarrow> discard_one st
         | Some r \<Rightarrow> st\<lparr>photoData := photoData st @ [r], analyzed_var := analyzed_var st + 1\<rparr>)
        imgs"
    by (simp only: foldl_Cons classify_task_analysis)
  show ?case
    unfolding step
    by (cases "analysis e i") (simp_all add: Cons.IH discard_one_def)
qed

lemma collect_unfold:
  "collect e sched urls =
     \<lparr>photoData = List.map_filter (analysis e) (sched (List.map_filter (fetched e) urls)),
      analyzed_var =
        length (filter (\<lambda>i. analysis e i \<noteq> None) (sched (List.map_filter (fetched e) urls))),
      discarded_var =
        length (filter (\<lambda>u. fetched e u = None) urls) +
        length (filter (\<lambda>i. analysis e i = None) (sched (List.map_filter (fetched e) urls)))\<rparr>"
  by (simp add: collect_def fetch_phase classify_phase validImages_of_fetched)

lemma length_filter_mset:
  "mset xs = mset ys \<Longrightarrow> length (filter P xs) = length (filter P ys)"
  by (metis mset_filter size_mset)

lemma image_fails_alt:
  "image_fails e u = (case fetched e u of None \<Rightarrow> True | Some img \<Rightarrow> analysis e img = None)"
  by (simp add: image_fails_def fetched_def analysis_def
        split: sum.splits classification.splits)

lemma count_analyzed:
  "length (filter (\<lambda>i. analysis e i \<noteq> None) (List.map_filter (fetched e) urls)) =
   length (filter (\<lambda>u. \<not> image_fails e u) urls)"
proof (induction urls)
  case Nil
  then show ?case by simp
next
  case (Cons u urls)
  then show ?case
    by (cases "fetched e u") (simp_all add: image_fails_alt)
qed

lemma count_discarded:
  "length (filter (\<lambda>u. fetched e u = None) urls) +
   length (filter (\<lambda>i. analysis e i = None) (List.map_filter (fetched e) urls)) =
   length (filter (image_fails e) urls)"
proof (induction urls)
  case Nil
  then show ?case by simp
next
  case (Cons u urls)
  then show ?case
    by (cases "fetched e u") (simp_all add: image_fails_alt)
qed

lemma collect_counts:
  assumes "\<forall>v. mset (sched v) = mset v"
  shows "analyzed_var (collect e sched urls) = length (filter (\<lambda>u. \<not> image_fails e u) urls)"
    and "discarded_var (collect e sched urls) = length (filter (image_fails e) urls)"
proof -
  have perm: "mset (sched (List.map_filter (fetched e) urls)) = mset (List.map_filter (fetched e) urls)"
    using assms by simp
  have "analyzed_var (collect e sched urls) =
      length (filter (\<lambda>i. analysis e i \<noteq> None) (sched (List.map_filter (fetched e) urls)))"
    by (simp add: collect_unfold)
  also have "\<dots> = length (filter (\<lambda>i. analysis e i \<noteq> None) (List.map_filter (fetched e) urls))"
    by (rule length_filter_mset [OF perm])
  also have "\<dots> = length (filter (\<lambda>u. \<not> image_fails e u) urls)"
    by (rule count_analyzed)
  finally show "analyzed_var (collect e sched urls) =
      length (filter (\<lambda>u. \<not> image_fails e u) urls)" .
  have "discarded_var (collect e sched urls) =
      length (filter (\<lambda>u. fetched e u = None) urls) +
      length (filter (\<lambda>i. analysis e i = None) (sched (List.map_filter (fetched e) urls)))"
    by (simp add: collect_unfold)
  also have "\<dots> = length (filter (\<lambda>u. fetched e u = None) urls) +
      length (filter (\<lambda>i. analysis e i = None) (List.map_filter (fetched e) urls))"
    by (simp only: length_filter_mset [OF perm])
  also have "\<dots> = length (filter (image_fails e) urls)"
    by (rule count_discarded)
  finally show "discarded_var (collect e sched urls) = length (filter (image_fails e) urls)" .
qed

lemma filter_partition_length:
  "length (filter (\<lambda>x. \<not> P x) xs) + length (filter P xs) = length xs"
  by (induction xs) simp_all

lemma best_of_None_iff: "best_of g = None \<longleftrightarrow> g = []"
  by (cases g) (simp_all add: best_of_Nil best_of_Cons split: option.splits)

lemma those_map_total:
  "\<forall>x \<in> set xs. f x \<noteq> None \<Longrightarrow> those (map f xs) = Some (map (the \<circ> f) xs)"
  by (induction xs) auto

lemma groupByHash_nonempty: "g \<in> set (groupByHash imgs) \<Longrightarrow> g \<noteq> []"
  using greedy_clusters_seeded [of g imgs] by (auto simp: groupByHash_greedy)

lemma bestImages_total:
  "those (map best_of (groupByHash imgs)) = Some (representatives imgs)"
  unfolding representatives_def
  by (rule those_map_total) (simp add: best_of_None_iff groupByHash_nonempty)

lemma handler_unfold:
  assumes "images ev = Some urls"
  shows "handler e sched ev =
     Inr \<lparr>statusCode = 200,
          body =
            \<lparr>report_claim_id = claim_id ev,
             report_source_images =
               \<lparr>total = length urls,
                analyzed = analyzed_var (collect e sched urls),
                discarded = discarded_var (collect e sched urls),
                clusters = length (groupByHash (photoData (collect e sched urls)))\<rparr>,
             overall_damage_severity =
               overallSeverity (representatives (photoData (collect e sched urls))),
             areas = finalAreas (loss_type ev) (representatives (photoData (collect e sched urls))),
             data_gaps =
               (if analyzed_var (collect e sched urls) < 3 then [''Very few usable images'']
                else []),
             confidence = toFixed 2 (random_value e * (95 / 100 - 7 / 10) + 7 / 10),
             generated_at = now_iso e\<rparr>\<rparr>"
  using assms by (simp add: handler_def Let_def bestImages_total)

lemma handler_Inr_images:
  "handler e sched ev = Inr r \<Longrightarrow> \<exists>urls. images ev = Some urls"
  by (cases "images ev") (simp_all add: handler_def)

text \<open>
  Claim C1. Whenever the handler returns a response, the total is the length of the
  \<^verbatim>\<open>images\<close> array and the analysed and discarded counts add up to it: every URL is
  counted once, as analysed when it survives fetch, classification and hashing, and as
  discarded when it fails one of them.
\<close>

theorem handler_counts:
  assumes "handler e sched ev = Inr r" and "\<forall>v. mset (sched v) = mset v"
  shows "\<exists>urls. images ev = Some urls \<and>
           total (report_source_images (body r)) = length urls \<and>
           analyzed (report_source_images (body r)) + discarded (report_source_images (body r)) =
             total (report_source_images (body r)) \<and>
           analyzed (report_source_images (body r)) =
             length (filter (\<lambda>u. \<not> image_fails e u) urls) \<and>
           discarded (report_source_images (body r)) = length (filter (image_fails e) urls)"
proof -
  from handler_Inr_images [OF assms(1)] obtain urls where urls: "images ev = Some urls"
    by blast
  have r: "report_source_images (body r) =
      \<lparr>total = length urls,
       analyzed = length (filter (\<lambda>u. \<not> image_fails e u) urls),
       discarded = length (filter (image_fails e) urls),
       clusters = length (groupByHash (photoData (collect e sched urls)))\<rparr>"
    using assms(1) unfolding handler_unfold [OF urls]
    by (auto simp: collect_counts [OF assms(2)])
  show ?thesis
    using urls by (simp add: r filter_partition_length)
qed

text \<open>
  A request of six images, of which four fail, each in its own way, with the tasks
  completing in the reverse order.
\<close>

theorem handler_counts_witness:
  "handler example_env rev example_event =
     Inr \<lparr>statusCode = 200,
          body =
            \<lparr>report_claim_id = ''CLM-2025-00123'',
             report_source_images = \<lparr>total = 6, analyzed = 2, discarded = 4, clusters = 2\<rparr>,
             overall_damage_severity = Num (7 / 2),
             areas =
               [\<lparr>area_res = ''unknown'', damage_confirmed = False, avg_severity = Num 4,
                 primary_peril = ''wind'', representative_images = [''img/debris''],
                 notes_text = ''Shingle uplift or material detachment''\<rparr>,
                \<lparr>area_res = ''roof'', damage_confirmed = False, avg_severity = Num 3,
                 primary_peril = ''wind'', representative_images = [''img/flaky''],
                 notes_text = ''Shingle uplift or material detachment''\<rparr>],
             data_gaps = [''Very few usable images''],
             confidence = 83 / 100,
             generated_at = ''2025-01-01T00:00:00.000Z''\<rparr>\<rparr> \<and>
   (\<forall>v :: (string \<times> buffer) list. mset (rev v) = mset v) \<and>
   filter (image_fails example_env)
     [''img/missing'', ''img/svc-error'', ''img/tree'', ''img/bad-hash'', ''img/flaky'', ''img/debris'']
     = [''img/missing'', ''img/svc-error'', ''img/tree'', ''img/bad-hash''] \<and>
   (\<exists>urls. images example_event = Some urls \<and> length urls = 6 \<and>
      length (filter (\<lambda>u. \<not> image_fails example_env u) urls) +
      length (filter (image_fails example_env) urls) = 6)"
proof -
  let ?r = "\<lparr>statusCode = 200,
          body =
            \<lparr>report_claim_id = ''CLM-2025-00123'',
             report_source_images = \<lparr>total = 6, analyzed = 2, discarded = 4, clusters = 2\<rparr>,
             overall_damage_severity = Num (7 / 2),
             areas =
               [\<lparr>area_res = ''unknown'', damage_confirmed = False, avg_severity = Num 4,
                 primary_peril = ''wind'', representative_images = [''img/debris''],
                 notes_text = ''Shingle uplift or material detachment''\<rparr>,
                \<lparr>area_res = ''roof'', damage_confirmed = False, avg_severity = Num 3,
                 primary_peril = ''wind'', representative_images = [''img/flaky''],
                 notes_text = ''Shingle uplift or material detachment''\<rparr>],
             data_gaps = [''Very few usable images''],
             confidence = 83 / 100,
             generated_at = ''2025-01-01T00:00:00.000Z''\<rparr>\<rparr>"
  have h: "handler example_env rev example_event = Inr ?r"
    by code_simp
  have p: "\<forall>v :: (string \<times> buffer) list. mset (rev v) = mset v"
    by simp
  have f: "filter (image_fails example_env)
     [''img/missing'', ''img/svc-error'', ''img/tree'', ''img/bad-hash'', ''img/flaky'', ''img/debris'']
     = [''img/missing'', ''img/svc-error'', ''img/tree'', ''img/bad-hash'']"
    by code_simp
  from handler_counts [OF h p] obtain urls where
    u: "images example_event = Some urls"
      "total (report_source_images (body ?r)) = length urls"
      "analyzed (report_source_images (body ?r)) + discarded (report_source_images (body ?r)) =
         total (report_source_images (body ?r))"
      "analyzed (report_source_images (body ?r)) =
         length (filter (\<lambda>u. \<not> image_fails example_env u) urls)"
      "discarded (report_source_images (body ?r)) = length (filter (image_fails example_env) urls)"
    by blast
  have "length urls = 6"
    using u(2) by simp
  moreover have "length (filter (\<lambda>u. \<not> image_fails example_env u) urls) +
      length (filter (image_fails example_env) urls) = 6"
    using u(3,4,5) by simp
  ultimately have e: "\<exists>urls. images example_event = Some urls \<and> length urls = 6 \<and>
      length (filter (\<lambda>u. \<not> image_fails example_env u) urls) +
      length (filter (image_fails example_env) urls) = 6"
    using u(1) by blast
  show ?thesis
    by (intro conjI h p f e)
qed

text \<open>
  Claim C9. For every request whose body has an \<^verbatim>\<open>images\<close> array the handler returns a
  response of status 200. An image whose fetch exhausts the retries, whose detection call
  errors, which the classification discards or whose hash task is rejected adds one to the
  discarded count and nothing else; the other images are the analysed ones.
\<close>

theorem handler_no_request_failure:
  assumes "images ev = Some urls" and "\<forall>v. mset (sched v) = mset v"
  shows "\<exists>r. handler e sched ev = Inr r \<and> statusCode r = 200 \<and>
           total (report_source_images (body r)) = length urls \<and>
           discarded (report_source_images (body r)) = length (filter (image_fails e) urls) \<and>
           analyzed (report_source_images (body r)) =
             length (filter (\<lambda>u. \<not> image_fails e u) urls)"
  unfolding handler_unfold [OF assms(1)]
  by (simp add: collect_counts [OF assms(2)])

theorem handler_no_request_failure_witness:
  "images example_event =
     Some [''img/missing'', ''img/svc-error'', ''img/tree'', ''img/bad-hash'', ''img/flaky'',
           ''img/debris''] \<and>
   fetchWithRetry example_env ''img/missing'' = Inl FetchFailed \<and>
   detectLabels example_env (map of_char ''img/svc-error'') = Inl ServiceError \<and>
   classifyDamage [mk_label ''Tree'' 99] = Discard \<and>
   runTask_hash example_env (map of_char ''img/bad-hash'') = Inl TaskError \<and>
   counts_of (handler example_env rev example_event) =
     Some (200, \<lparr>total = 6, analyzed = 2, discarded = 4, clusters = 2\<rparr>) \<and>
   (\<exists>r. handler example_env rev example_event = Inr r \<and> statusCode r = 200 \<and>
      total (report_source_images (body r)) =
        length [''img/missing'', ''img/svc-error'', ''img/tree'', ''img/bad-hash'', ''img/flaky'',
                ''img/debris''] \<and>
      discarded (report_source_images (body r)) =
        length (filter (image_fails example_env)
          [''img/missing'', ''img/svc-error'', ''img/tree'', ''img/bad-hash'', ''img/flaky'',
           ''img/debris'']) \<and>
      analyzed (report_source_images (body r)) =
        length (filter (\<lambda>u. \<not> image_fails example_env u)
          [''img/missing'', ''img/svc-error'', ''img/tree'', ''img/bad-hash'', ''img/flaky'',
           ''img/debris'']))"
proof -
  have i: "images example_event =
     Some [''img/missing'', ''img/svc-error'', ''img/tree'', ''img/bad-hash'', ''img/flaky'',
           ''img/debris'']"
    by (simp add: example_event_def)
  have p: "\<forall>v :: (string \<times> buffer) list. mset (rev v) = mset v"
    by simp
  have a: "fetchWithRetry example_env ''img/missing'' = Inl FetchFailed"
    by code_simp
  have b: "detectLabels example_env (map of_char ''img/svc-error'') = Inl ServiceError"
    by code_simp
  have c: "classifyDamage [mk_label ''Tree'' 99] = Discard"
    by code_simp
  have d: "runTask_hash example_env (map of_char ''img/bad-hash'') = Inl TaskError"
    by code_simp
  have n: "counts_of (handler example_env rev example_event) =
     Some (200, \<lparr>total = 6, analyzed = 2, discarded = 4, clusters = 2\<rparr>)"
    by code_simp
  show ?thesis
    by (intro conjI i a b c d n handler_no_request_failure [OF i p])
qed

text \<open>
  The representative of a cluster is one of its members; when the records within the
  clustering threshold of one another carry the same area, the area of every analysed
  image is the area of some representative.
\<close>

lemma set_map_filter: "set (List.map_filter f xs) = {y. \<exists>x \<in> set xs. f x = Some y}"
  by (induction xs) (auto split: option.splits)

lemma best_of_member: "best_of g = Some r \<Longrightarrow> r \<in> set g"
  by (induction g arbitrary: r) (auto simp: best_of_Nil best_of_Cons split: option.splits if_splits)








section \<open>The records that reach the aggregation\<close>

text \<open>
  Every analysed image carries one of four area names, a severity from 0 to 4 and the
  quality 0.6 or 1, and every representative is an analysed image: the aggregation divides
  by a positive sum of qualities.
\<close>

lemma area_of_name_range:
  "area_of_name n = Some a \<Longrightarrow> a \<in> {''roof'', ''garage'', ''siding''}"
  by (auto simp: area_of_name_def split: if_splits)

lemma area_hits_range: "set (area_hits labels) \<subseteq> {''roof'', ''garage'', ''siding''}"
proof (induction labels)
  case Nil
  then show ?case by (simp add: area_hits_def)
next
  case (Cons L labels)
  then show ?case
    using area_of_name_range [of "label_name L"]
    by (auto simp: area_hits_Cons split: option.splits)
qed

lemma classifyDamage_range:
  assumes "classifyDamage labels = Keep a sev q"
  shows "a \<in> {''roof'', ''garage'', ''siding'', ''unknown''} \<and> 0 \<le> sev \<and> sev \<le> 4 \<and>
         (q = 6 / 10 \<or> q = 1)"
proof -
  have a: "a = (if area_hits labels = [] then ''unknown'' else last (area_hits labels))"
    and sev: "sev = min 4 (js_round (avgConfidence (damage_evidence labels) / 25))"
    and q: "q = 6 / 10 \<or> q = 1"
    using assms by (auto simp: classifyDamage_unfold split: if_splits)
  have "a \<in> {''roof'', ''garage'', ''siding'', ''unknown''}"
  proof (cases "area_hits labels = []")
    case True
    then show ?thesis using a by simp
  next
    case False
    then have "last (area_hits labels) \<in> set (area_hits labels)"
      by simp
    then have "last (area_hits labels) \<in> {''roof'', ''garage'', ''siding''}"
      using area_hits_range [of labels] by (rule set_mp [rotated])
    then show ?thesis
      using a False by auto
  qed
  moreover have "0 \<le> js_round (avgConfidence (damage_evidence labels) / 25)"
    using avg_evidence_ge [of labels] by (intro js_round_nonneg) simp
  ultimately show ?thesis
    using sev q by simp
qed

lemma analysis_range:
  assumes "analysis e img = Some x"
  shows "area x \<in> {''roof'', ''garage'', ''siding'', ''unknown''} \<and>
         0 \<le> severity x \<and> severity x \<le> 4 \<and> (quality x = 6 / 10 \<or> quality x = 1)"
proof -
  obtain u buffer where img: "img = (u, buffer)"
    by (cases img)
  from assms obtain Labels a sev q h where
    "classifyDamage (case Labels of None \<Rightarrow> [] | Some ls \<Rightarrow> ls) = Keep a sev q"
    "x = \<lparr>url = u, area = a, severity = sev, quality = q, hash = h\<rparr>"
    unfolding img analysis_def
    by (auto split: sum.splits classification.splits)
  then show ?thesis
    using classifyDamage_range by force
qed

lemma photoData_range:
  assumes "x \<in> set (photoData (collect e sched urls))"
  shows "area x \<in> {''roof'', ''garage'', ''siding'', ''unknown''} \<and>
         0 \<le> severity x \<and> severity x \<le> 4 \<and> (quality x = 6 / 10 \<or> quality x = 1)"
proof -
  from assms obtain img where "analysis e img = Some x"
    by (auto simp: collect_unfold set_map_filter)
  then show ?thesis
    by (rule analysis_range)
qed

lemma representatives_subset: "set (representatives imgs) \<subseteq> set imgs"
proof
  fix r assume "r \<in> set (representatives imgs)"
  then obtain g where g: "g \<in> set (greedy_clusters imgs)" and r: "r = the (best_of g)"
    by (auto simp: representatives_def groupByHash_greedy)
  from greedy_clusters_seeded [OF g] have ne: "g \<noteq> []" and sub: "set g \<subseteq> set imgs"
    by auto
  from ne obtain b where b: "best_of g = Some b"
    using best_of_None_iff [of g] by (cases "best_of g") simp_all
  then have "b \<in> set g"
    by (rule best_of_member)
  then show "r \<in> set imgs"
    using r b sub by auto
qed

lemma handler_representatives_quality:
  "\<forall>i \<in> set (representatives (photoData (collect e sched urls))). 0 < quality i"
proof
  fix i assume "i \<in> set (representatives (photoData (collect e sched urls)))"
  then have "i \<in> set (photoData (collect e sched urls))"
    using representatives_subset by blast
  from photoData_range [OF this] show "0 < quality i"
    by auto
qed

end
